theory Spec2Isabelle
  imports Main "HOL-Library.Sublist"
begin

section \<open>The text engine: splitting a string by a literal delimiter\<close>

text \<open>
  The repository's core is one C++ function, \<^verbatim>\<open>split_by_delimiter\<close> in
  \<^verbatim>\<open>text_engine.cpp\<close>:
  \<^verbatim>\<open>
  std::vector<std::string> split_by_delimiter(const std::string& text,
                                              const std::string& delimiter) {
      std::vector<std::string> result;
      size_t start = 0, end = 0;
      while ((end = text.find(delimiter, start)) != std::string::npos) {
          result.push_back(text.substr(start, end - start));
          start = end + delimiter.length();
      }
      result.push_back(text.substr(start));
      return result;
  }
  \<close>
  A \<^verbatim>\<open>std::string\<close> is a sequence of bytes, which is what \<^typ>\<open>string\<close> is.
  Positions have the type \<^verbatim>\<open>size_t\<close>; they are modelled as \<^typ>\<open>nat\<close>, and the
  lemmas on \<open>string_find\<close> below show that every position the function computes is
  at most the length of the text, so that no \<^verbatim>\<open>size_t\<close> operation of the function
  wraps around and no subtraction is truncated. Memory is not bounded in the model: a
  failed allocation is not one of its outcomes.
\<close>

subsection \<open>The library operations the function calls\<close>

text \<open>
  \<^verbatim>\<open>text.find(str, pos)\<close> of the C++ standard library: the lowest position
  \<open>xpos\<close> with \<open>pos \<le> xpos\<close> and \<open>xpos + str.size() \<le> text.size()\<close> at which
  \<open>str\<close> occurs in \<open>text\<close>, and \<^verbatim>\<open>npos\<close> (here \<open>None\<close>) when there is none.
\<close>

function string_find :: "string \<Rightarrow> string \<Rightarrow> nat \<Rightarrow> nat option" where
  "string_find text str pos =
     (if length text < pos + length str then None
      else if take (length str) (drop pos text) = str then Some pos
      else string_find text str (Suc pos))"
  by pat_completeness auto
termination
  by (relation "measure (\<lambda>(text, str, pos). Suc (length text) - pos)") auto

declare string_find.simps [simp del]

text \<open>
  \<^verbatim>\<open>text.substr(pos, n)\<close> throws \<^verbatim>\<open>std::out_of_range\<close> when \<open>pos\<close> is beyond the
  size of the text, and otherwise copies the characters from \<open>pos\<close> on, \<open>n\<close> of them
  or as many as there are; \<^verbatim>\<open>text.substr(pos)\<close> has \<open>n = npos\<close> and copies up to
  the end.
\<close>

datatype error = OutOfRange

definition substr :: "string \<Rightarrow> nat \<Rightarrow> nat \<Rightarrow> error + string" where
  "substr text pos n =
     (if length text < pos then Inl OutOfRange else Inr (take n (drop pos text)))"

definition substr_from :: "string \<Rightarrow> nat \<Rightarrow> error + string" where
  "substr_from text pos =
     (if length text < pos then Inl OutOfRange else Inr (drop pos text))"

subsection \<open>The function\<close>

text \<open>
  The \<^verbatim>\<open>while\<close> loop, with the variables it changes (\<open>start\<close> and \<open>result\<close>) as
  arguments. Nothing in the source bounds the number of iterations, so the loop is a
  partial function: \<open>None\<close> is a run that never leaves the loop, \<open>Some (Inl e)\<close> a
  run that ends in the exception \<open>e\<close>, and \<open>Some (Inr segs)\<close> a run that returns the
  vector \<open>segs\<close>.
\<close>

partial_function (option) split_loop ::
  "string \<Rightarrow> string \<Rightarrow> nat \<Rightarrow> string list \<Rightarrow> (error + string list) option" where
  "split_loop text delimiter start result =
     (case string_find text delimiter start of
        Some end' \<Rightarrow>
          (case substr text start (end' - start) of
             Inl e \<Rightarrow> Some (Inl e)
           | Inr seg \<Rightarrow> split_loop text delimiter (end' + length delimiter) (result @ [seg]))
      | None \<Rightarrow>
          (case substr_from text start of
             Inl e \<Rightarrow> Some (Inl e)
           | Inr seg \<Rightarrow> Some (Inr (result @ [seg]))))"

definition split_by_delimiter :: "string \<Rightarrow> string \<Rightarrow> (error + string list) option" where
  "split_by_delimiter text delimiter = split_loop text delimiter 0 []"

declare split_loop.simps [code]

subsection \<open>The notions of the specification\<close>

text \<open>
  The specification states its laws with three notions that the source does not define.
  They are written here from the specification's words, independently of
  \<open>string_find\<close> and of positions in the text.

  \<open>join segments delimiter\<close>: the segments concatenated, with the delimiter interposed
  between consecutive elements.
\<close>

fun join :: "string list \<Rightarrow> string \<Rightarrow> string" where
  "join [] delimiter = []"
| "join [seg] delimiter = seg"
| "join (seg # seg' # segs) delimiter = seg @ delimiter @ join (seg' # segs) delimiter"

text \<open>
  The delimiter occurs in the text when the text is some characters, then the delimiter,
  then some characters: this is \<^const>\<open>sublist\<close>.

  The number of non-overlapping occurrences of a non-empty delimiter, after the
  glossary: ``each delimiter occurrence consumes the text it matches; the next search
  resumes immediately after it''. The text is read from the left; where the delimiter
  is a prefix of what remains, that occurrence is counted and skipped whole; elsewhere
  one character is skipped.
\<close>

function count_occurrences :: "string \<Rightarrow> string \<Rightarrow> nat" where
  "count_occurrences delimiter [] = 0"
| "count_occurrences delimiter (c # cs) =
     (if delimiter \<noteq> [] \<and> prefix delimiter (c # cs)
      then Suc (count_occurrences delimiter (drop (length delimiter) (c # cs)))
      else count_occurrences delimiter cs)"
  by pat_completeness auto
termination
  by (relation "measure (\<lambda>(delimiter, text). length text)") auto

declare count_occurrences.simps [simp del]

text \<open>
  The same number without a reading order: the delimiter occurs at position \<open>p\<close> when
  it lies there within the text, a set of positions is non-overlapping when the
  delimiter occurs at each and any two of them are at least the length of the delimiter
  apart. \<open>count_occurrences\<close> is shown below to be the greatest size of such a set.
\<close>

definition occurs_at :: "string \<Rightarrow> string \<Rightarrow> nat \<Rightarrow> bool" where
  "occurs_at delimiter text p \<longleftrightarrow>
     p + length delimiter \<le> length text \<and> take (length delimiter) (drop p text) = delimiter"

definition non_overlapping :: "string \<Rightarrow> string \<Rightarrow> nat set \<Rightarrow> bool" where
  "non_overlapping delimiter text S \<longleftrightarrow>
     (\<forall>p \<in> S. occurs_at delimiter text p) \<and>
     (\<forall>p \<in> S. \<forall>q \<in> S. p < q \<longrightarrow> p + length delimiter \<le> q)"


section \<open>Properties of the library operations\<close>

text \<open>
  A position returned by \<open>string_find\<close> is at or after the position where the search
  began, the delimiter lies there within the text, and it does not lie at any position
  in between. Hence \<open>end - start\<close> and \<open>end + delimiter.length()\<close> in the loop are
  exact: the first does not go below zero and the second does not exceed the size of
  the text.
\<close>

lemma string_find_Some:
  "string_find t d pos = Some e \<Longrightarrow>
     pos \<le> e \<and> e + length d \<le> length t \<and> take (length d) (drop e t) = d \<and>
     (\<forall>p. pos \<le> p \<and> p < e \<longrightarrow> take (length d) (drop p t) \<noteq> d)"
proof (induction t d pos rule: string_find.induct)
  case (1 t str pos)
  show ?case
  proof (cases "length t < pos + length str")
    case True
    with "1.prems" show ?thesis by (simp add: string_find.simps)
  next
    case fits: False
    show ?thesis
    proof (cases "take (length str) (drop pos t) = str")
      case True
      with fits "1.prems" have "e = pos" by (simp add: string_find.simps)
      with fits True show ?thesis by auto
    next
      case False
      with fits "1.prems" have "string_find t str (Suc pos) = Some e"
        by (simp add: string_find.simps)
      with "1.IH" fits False
      have ih: "Suc pos \<le> e \<and> e + length str \<le> length t \<and>
                take (length str) (drop e t) = str \<and>
                (\<forall>p. Suc pos \<le> p \<and> p < e \<longrightarrow> take (length str) (drop p t) \<noteq> str)"
        by simp
      have "take (length str) (drop p t) \<noteq> str" if "pos \<le> p" "p < e" for p
      proof (cases "p = pos")
        case True
        with False show ?thesis by simp
      next
        case False
        with that ih show ?thesis by simp
      qed
      with ih show ?thesis by simp
    qed
  qed
qed

lemma string_find_None:
  "string_find t d pos = None \<Longrightarrow> pos \<le> p \<Longrightarrow> p + length d \<le> length t \<Longrightarrow>
     take (length d) (drop p t) \<noteq> d"
proof (induction t d pos rule: string_find.induct)
  case (1 t str pos)
  from "1.prems" have fits: "\<not> length t < pos + length str" by simp
  with "1.prems"(1) have here: "take (length str) (drop pos t) \<noteq> str"
    by (auto simp: string_find.simps [of t str pos] split: if_splits)
  with fits "1.prems"(1) have "string_find t str (Suc pos) = None"
    by (simp add: string_find.simps [of t str pos])
  with "1.IH" fits here "1.prems"(3)
  have "Suc pos \<le> p \<Longrightarrow> take (length str) (drop p t) \<noteq> str" by simp
  with here "1.prems"(2) show ?case by (cases "p = pos") auto
qed

lemma string_find_NoneI:
  assumes "\<And>p. pos \<le> p \<Longrightarrow> p + length d \<le> length t \<Longrightarrow> take (length d) (drop p t) \<noteq> d"
  shows "string_find t d pos = None"
proof (cases "string_find t d pos")
  case None
  then show ?thesis .
next
  case (Some e)
  from string_find_Some [OF Some] assms [of e] show ?thesis by simp
qed

lemma string_find_empty: "pos \<le> length t \<Longrightarrow> string_find t [] pos = Some pos"
  by (simp add: string_find.simps)

lemma string_find_append:
  "string_find (ps @ t) d (length ps + q) = map_option ((+) (length ps)) (string_find t d q)"
proof (induction t d q rule: string_find.induct)
  case (1 t str pos)
  show ?case
  proof (cases "length t < pos + length str")
    case True
    then show ?thesis
      by (simp add: string_find.simps [of t str pos]
          string_find.simps [of "ps @ t" str "length ps + pos"])
  next
    case fits: False
    show ?thesis
    proof (cases "take (length str) (drop pos t) = str")
      case True
      with fits show ?thesis
        by (simp add: string_find.simps [of t str pos]
            string_find.simps [of "ps @ t" str "length ps + pos"])
    next
      case False
      with fits "1.IH" have "string_find (ps @ t) str (length ps + Suc pos) =
          map_option ((+) (length ps)) (string_find t str (Suc pos))" by simp
      with fits False show ?thesis
        by (simp add: string_find.simps [of t str pos]
            string_find.simps [of "ps @ t" str "length ps + pos"])
    qed
  qed
qed

text \<open>
  Occurrences by position and occurrences as \<^const>\<open>sublist\<close> are the same thing. The
  leftmost occurrence of a delimiter \<open>d\<close> splits a text into \<open>pre @ d @ rest\<close> where \<open>d\<close>
  does not occur in \<open>pre @ butlast d\<close>, that is, nowhere before.
\<close>

lemma sublist_iff_take_drop:
  "sublist d xs \<longleftrightarrow> (\<exists>p. p + length d \<le> length xs \<and> take (length d) (drop p xs) = d)"
proof
  assume "sublist d xs"
  then obtain ps ss where "xs = ps @ d @ ss" by (auto simp: sublist_def)
  then have "length ps + length d \<le> length xs \<and> take (length d) (drop (length ps) xs) = d"
    by simp
  then show "\<exists>p. p + length d \<le> length xs \<and> take (length d) (drop p xs) = d" by blast
next
  assume "\<exists>p. p + length d \<le> length xs \<and> take (length d) (drop p xs) = d"
  then obtain p where p: "p + length d \<le> length xs" "take (length d) (drop p xs) = d" by blast
  have "xs = take p xs @ take (length d) (drop p xs) @ drop (length d) (drop p xs)"
    by (metis append_take_drop_id)
  with p show "sublist d xs" unfolding sublist_def by metis
qed

lemma occurrence_in_prefix:
  "q + n \<le> length xs \<Longrightarrow> take n (drop q (xs @ ys)) = take n (drop q xs)"
  by simp

lemma string_find_leftmost:
  assumes "\<not> sublist d (pre @ butlast d)"
  shows "string_find (pre @ d @ rest) d 0 = Some (length pre)"
proof -
  let ?t = "pre @ d @ rest"
  from assms have d: "d \<noteq> []" by auto
  have here: "length pre + length d \<le> length ?t" "take (length d) (drop (length pre) ?t) = d"
    by simp_all
  obtain e where e: "string_find ?t d 0 = Some e"
    using string_find_None [of ?t d 0 "length pre"] here by (cases "string_find ?t d 0") auto
  from string_find_Some [OF e] here
  have le: "e \<le> length pre" and occ: "take (length d) (drop e ?t) = d"
    by (auto simp: not_less [symmetric])
  have "e = length pre"
  proof (rule ccontr)
    assume "e \<noteq> length pre"
    with le have lt: "e < length pre" by simp
    have t: "?t = (pre @ butlast d) @ (last d # rest)"
      using append_butlast_last_id [OF d] by (metis append.assoc append_Cons append_Nil)
    from lt d have fit: "e + length d \<le> length (pre @ butlast d)" by simp
    have "take (length d) (drop e (pre @ butlast d)) = d"
      using occ occurrence_in_prefix [OF fit, of "last d # rest"] unfolding t by simp
    with fit have "sublist d (pre @ butlast d)"
      unfolding sublist_iff_take_drop by blast
    with assms show False by simp
  qed
  with e show ?thesis by simp
qed

lemma leftmost_occurrence:
  assumes "sublist d (t::string)" and "d \<noteq> []"
  obtains pre rest where "t = pre @ d @ rest" and "\<not> sublist d (pre @ butlast d)"
proof -
  from assms(1) obtain p where p: "p + length d \<le> length t" "take (length d) (drop p t) = d"
    unfolding sublist_iff_take_drop by blast
  obtain e where e: "string_find t d 0 = Some e"
    using string_find_None [of t d 0 p] p by (cases "string_find t d 0") auto
  from string_find_Some [OF e]
  have fit: "e + length d \<le> length t" and occ: "take (length d) (drop e t) = d"
    and first: "\<And>p. p < e \<Longrightarrow> take (length d) (drop p t) \<noteq> d" by simp_all
  define pre where "pre = take e t"
  define rest where "rest = drop (length d) (drop e t)"
  have t: "t = pre @ d @ rest"
    unfolding pre_def rest_def using occ by (metis append_take_drop_id)
  from fit have pre: "length pre = e" by (simp add: pre_def)
  have "\<not> sublist d (pre @ butlast d)"
  proof
    assume "sublist d (pre @ butlast d)"
    then obtain q where q: "q + length d \<le> length (pre @ butlast d)"
      "take (length d) (drop q (pre @ butlast d)) = d"
      unfolding sublist_iff_take_drop by blast
    from q(1) pre have "q + length d \<le> e + (length d - 1)" by simp
    moreover from assms(2) have "0 < length d" by simp
    ultimately have "q < e" by arith
    have "(pre @ butlast d) @ (last d # rest) = t"
      using t append_butlast_last_id [OF assms(2)]
      by (metis append.assoc append_Cons append_Nil)
    then have "take (length d) (drop q t) = take (length d) (drop q (pre @ butlast d))"
      using occurrence_in_prefix [OF q(1)] by metis
    with q(2) first [OF \<open>q < e\<close>] show False by simp
  qed
  with t that show ?thesis by blast
qed

section \<open>The loop\<close>

text \<open>
  One iteration, and the exit. With a non-empty delimiter the loop started at \<open>q\<close> in
  \<open>t\<close> returns, and what it appends to \<open>result\<close> depends only on the text from \<open>q\<close>
  on: the same segments are appended when any characters \<open>ps\<close> are put in front of \<open>t\<close>.
\<close>

lemma split_loop_None:
  assumes "string_find t d start = None" and "start \<le> length t"
  shows "split_loop t d start acc = Some (Inr (acc @ [drop start t]))"
  using assms by (subst split_loop.simps) (simp add: substr_from_def)

lemma split_loop_Some:
  assumes "string_find t d start = Some e"
  shows "split_loop t d start acc =
           split_loop t d (e + length d) (acc @ [take (e - start) (drop start t)])"
proof -
  from string_find_Some [OF assms] have "start \<le> length t" by simp
  with assms show ?thesis
    by (subst split_loop.simps) (simp add: substr_def)
qed

lemma split_loop_shift:
  assumes "d \<noteq> []"
  shows "q \<le> length t \<Longrightarrow>
    \<exists>segs. split_loop t d q [] = Some (Inr segs) \<and>
      (\<forall>ps acc. split_loop (ps @ t) d (length ps + q) acc = Some (Inr (acc @ segs)))"
proof (induction "length t - q" arbitrary: q rule: less_induct)
  case less
  have all: "\<exists>segs. \<forall>ps acc. split_loop (ps @ t) d (length ps + q) acc = Some (Inr (acc @ segs))"
  proof (cases "string_find t d q")
    case None
    have "split_loop (ps @ t) d (length ps + q) acc = Some (Inr (acc @ [drop q t]))" for ps acc
    proof -
      from None have "string_find (ps @ t) d (length ps + q) = None"
        by (simp add: string_find_append)
      from split_loop_None [OF this] less.prems show ?thesis by simp
    qed
    then show ?thesis by blast
  next
    case (Some e)
    from string_find_Some [OF Some] have e: "q \<le> e" "e + length d \<le> length t" by simp_all
    with assms have "length t - (e + length d) < length t - q" by (cases d) auto
    from less.hyps [OF this] e obtain segs where
      segs: "\<And>ps acc. split_loop (ps @ t) d (length ps + (e + length d)) acc = Some (Inr (acc @ segs))"
      by blast
    have "split_loop (ps @ t) d (length ps + q) acc =
            Some (Inr (acc @ take (e - q) (drop q t) # segs))" for ps acc
    proof -
      from Some have "string_find (ps @ t) d (length ps + q) = Some (length ps + e)"
        by (simp add: string_find_append)
      from split_loop_Some [OF this, of acc] e segs [of ps "acc @ [take (e - q) (drop q t)]"]
      show ?thesis by (simp add: add.assoc)
    qed
    then show ?thesis by blast
  qed
  then obtain segs where
    segs: "\<And>ps acc. split_loop (ps @ t) d (length ps + q) acc = Some (Inr (acc @ segs))"
    by blast
  from segs [of "[]" "[]"] have "split_loop t d q [] = Some (Inr segs)" by simp
  with segs show ?case by blast
qed

text \<open>
  With an empty delimiter \<^verbatim>\<open>find\<close> answers \<open>start\<close> itself as long as \<open>start\<close> is
  within the text, the loop appends an empty segment and \<open>start\<close> stays where it is:
  the loop started inside the text has no result.
\<close>

lemma split_loop_empty_aux:
  assumes "split_loop t d start acc = Some y"
  shows "d = [] \<longrightarrow> length t < start"
proof (rule split_loop.raw_induct
    [where P = "\<lambda>t d start acc y. d = [] \<longrightarrow> length t < start", OF _ assms])
  fix loop :: "string \<Rightarrow> string \<Rightarrow> nat \<Rightarrow> string list \<Rightarrow> (error + string list) option"
    and t d start acc y
  assume IH: "\<And>t d start acc y. loop t d start acc = Some y \<Longrightarrow> d = [] \<longrightarrow> length t < start"
  assume body: "(case string_find t d start of
        None \<Rightarrow> (case substr_from t start of Inl e \<Rightarrow> Some (Inl e)
                 | Inr seg \<Rightarrow> Some (Inr (acc @ [seg])))
      | Some end' \<Rightarrow> (case substr t start (end' - start) of Inl e \<Rightarrow> Some (Inl e)
                 | Inr seg \<Rightarrow> loop t d (end' + length d) (acc @ [seg]))) = Some y"
  show "d = [] \<longrightarrow> length t < start"
  proof
    assume d: "d = []"
    show "length t < start"
    proof (rule ccontr)
      assume "\<not> length t < start"
      then have le: "start \<le> length t" by simp
      with d have "string_find t d start = Some start"
        by (simp add: string_find_empty)
      with body le d have "loop t d start (acc @ [[]]) = Some y"
        by (simp add: substr_def)
      with IH d have "length t < start" by blast
      with le show False by simp
    qed
  qed
qed

lemma split_loop_empty_delimiter: "split_loop t [] 0 acc = None"
proof (cases "split_loop t [] 0 acc")
  case None
  then show ?thesis .
next
  case (Some y)
  then show ?thesis using split_loop_empty_aux [of t "[]" 0 acc y] by simp
qed

section \<open>The function on texts\<close>

text \<open>
  The two equations that determine \<open>split_by_delimiter\<close> for a non-empty delimiter,
  and the induction principle they give.
\<close>

lemma split_no_occurrence:
  assumes "\<not> sublist d t"
  shows "split_by_delimiter t d = Some (Inr [t])"
proof -
  have "string_find t d 0 = None"
    using assms unfolding sublist_iff_take_drop by (intro string_find_NoneI) blast
  from split_loop_None [OF this, of "[]"] show ?thesis
    by (simp add: split_by_delimiter_def)
qed

lemma split_leftmost:
  assumes "\<not> sublist d (pre @ butlast d)"
  obtains segs where "split_by_delimiter rest d = Some (Inr segs)"
    and "split_by_delimiter (pre @ d @ rest) d = Some (Inr (pre # segs))"
proof -
  from assms have d: "d \<noteq> []" by auto
  from split_loop_shift [OF d, of 0 rest] obtain segs where
    rest: "split_loop rest d 0 [] = Some (Inr segs)" and
    shift: "\<And>ps acc. split_loop (ps @ rest) d (length ps + 0) acc = Some (Inr (acc @ segs))"
    by auto
  from split_loop_Some [OF string_find_leftmost [OF assms, of rest], of "[]"]
  have "split_loop (pre @ d @ rest) d 0 [] = split_loop (pre @ d @ rest) d (length pre + length d) [pre]"
    by simp
  also have "\<dots> = Some (Inr (pre # segs))"
    using shift [of "pre @ d" "[pre]"] by simp
  finally show ?thesis using rest that by (simp add: split_by_delimiter_def)
qed

lemma text_induct [consumes 1, case_names no_occurrence leftmost]:
  assumes d: "d \<noteq> []"
    and none: "\<And>t. \<not> sublist d t \<Longrightarrow> Q t"
    and step: "\<And>pre rest. \<not> sublist d (pre @ butlast d) \<Longrightarrow> Q rest \<Longrightarrow> Q (pre @ d @ rest)"
  shows "Q (t :: string)"
proof (induction t rule: length_induct)
  case (1 t)
  show ?case
  proof (cases "sublist d t")
    case False
    then show ?thesis by (rule none)
  next
    case True
    from leftmost_occurrence [OF True d] obtain pre rest where
      t: "t = pre @ d @ rest" and first: "\<not> sublist d (pre @ butlast d)" by blast
    from t d have "length rest < length t" by simp
    with "1.IH" have "Q rest" by simp
    from step [OF first this] t show ?thesis by simp
  qed
qed

lemma split_induct [consumes 1, case_names no_occurrence leftmost]:
  assumes d: "d \<noteq> []"
    and none: "\<And>t. \<not> sublist d t \<Longrightarrow> P t [t]"
    and step: "\<And>pre rest segs. \<not> sublist d (pre @ butlast d) \<Longrightarrow>
        split_by_delimiter rest d = Some (Inr segs) \<Longrightarrow> P rest segs \<Longrightarrow>
        P (pre @ d @ rest) (pre # segs)"
  shows "\<exists>segs. split_by_delimiter t d = Some (Inr segs) \<and> P t segs"
proof (induction t rule: length_induct)
  case (1 t)
  show ?case
  proof (cases "sublist d t")
    case False
    from split_no_occurrence [OF False] none [OF False] show ?thesis by simp
  next
    case True
    from leftmost_occurrence [OF True d] obtain pre rest where
      t: "t = pre @ d @ rest" and first: "\<not> sublist d (pre @ butlast d)" by blast
    from split_leftmost [OF first, of rest] obtain segs where
      segs: "split_by_delimiter rest d = Some (Inr segs)"
        "split_by_delimiter t d = Some (Inr (pre # segs))" unfolding t by blast
    from t d have "length rest < length t" by simp
    with "1.IH" segs(1) have "P rest segs" by auto
    from step [OF first segs(1) this] segs(2) t show ?thesis by simp
  qed
qed

text \<open>The notions of the specification along the same two cases.\<close>

lemma join_Cons: "segs \<noteq> [] \<Longrightarrow> join (seg # segs) d = seg @ d @ join segs d"
  by (cases segs) simp_all

lemma count_no_occurrence:
  "\<not> sublist d t \<Longrightarrow> count_occurrences d t = 0"
proof (induction t)
  case Nil
  show ?case by (simp add: count_occurrences.simps)
next
  case (Cons c cs)
  from Cons.prems have "\<not> prefix d (c # cs)" and "\<not> sublist d cs"
    by (simp_all add: sublist_Cons_right)
  then show ?case using Cons.IH by (simp add: count_occurrences.simps)
qed

lemma count_leftmost:
  "\<not> sublist d (pre @ butlast d) \<Longrightarrow>
     count_occurrences d (pre @ d @ rest) = Suc (count_occurrences d rest)"
proof (induction pre)
  case Nil
  then have "d \<noteq> []" by auto
  then obtain c ds where d: "d = c # ds" by (cases d) auto
  show ?case by (simp add: d count_occurrences.simps)
next
  case (Cons p ps)
  then have d: "d \<noteq> []" by auto
  have "\<not> prefix d ((p # ps) @ d @ rest)"
  proof
    assume "prefix d ((p # ps) @ d @ rest)"
    moreover have "(p # ps) @ d @ rest = ((p # ps) @ butlast d) @ (last d # rest)"
      using append_butlast_last_id [OF d] by (metis append.assoc append_Cons append_Nil)
    then have "prefix ((p # ps) @ butlast d) ((p # ps) @ d @ rest)"
      by (metis prefixI)
    moreover from d have "length d \<le> length ((p # ps) @ butlast d)" by simp
    ultimately have "prefix d ((p # ps) @ butlast d)"
      by (rule prefix_length_prefix)
    with Cons.prems show False by (auto dest: prefix_imp_sublist)
  qed
  moreover from Cons.prems have "\<not> sublist d (ps @ butlast d)"
    by (simp add: sublist_Cons_right)
  ultimately show ?case using Cons.IH by (simp add: count_occurrences.simps)
qed

text \<open>
  The left-to-right count is the greatest number of pairwise non-overlapping
  occurrences: some non-overlapping set of positions has that many elements and none
  has more.
\<close>

lemma occurs_at_sublist: "occurs_at d t p \<Longrightarrow> sublist d t"
  unfolding occurs_at_def sublist_iff_take_drop by blast

lemma occurs_at_here: "occurs_at d (pre @ d @ rest) (length pre)"
  by (simp add: occurs_at_def)

lemma occurs_at_before:
  assumes first: "\<not> sublist d (pre @ butlast d)" and p: "p < length pre"
  shows "\<not> occurs_at d (pre @ d @ rest) p"
proof
  assume occ: "occurs_at d (pre @ d @ rest) p"
  from first have d: "d \<noteq> []" by auto
  have t: "pre @ d @ rest = (pre @ butlast d) @ (last d # rest)"
    using append_butlast_last_id [OF d] by (metis append.assoc append_Cons append_Nil)
  from d have "0 < length d" by simp
  with p have fit: "p + length d \<le> length (pre @ butlast d)" by simp
  from occ have "take (length d) (drop p (pre @ butlast d)) = d"
    unfolding occurs_at_def t occurrence_in_prefix [OF fit] by simp
  with fit have "sublist d (pre @ butlast d)"
    unfolding sublist_iff_take_drop by blast
  with first show False by simp
qed

lemma occurs_at_after:
  "occurs_at d (pre @ d @ rest) (k + (length pre + length d)) \<longleftrightarrow> occurs_at d rest k"
proof -
  have "drop (k + (length pre + length d)) (pre @ d @ rest) = drop k rest"
    by (simp add: drop_append)
  then show ?thesis by (simp add: occurs_at_def)
qed

lemma non_overlapping_finite: "non_overlapping d t S \<Longrightarrow> finite S"
proof -
  assume "non_overlapping d t S"
  then have "S \<subseteq> {..length t}" by (auto simp: non_overlapping_def occurs_at_def)
  then show ?thesis by (rule finite_subset) simp
qed

lemma count_occurrences_greatest:
  assumes d: "d \<noteq> []"
  shows "(\<exists>S. non_overlapping d t S \<and> card S = count_occurrences d t) \<and>
         (\<forall>S. non_overlapping d t S \<longrightarrow> card S \<le> count_occurrences d t)"
proof (induction t rule: text_induct [OF d, case_names no_occurrence leftmost])
  case (no_occurrence t)
  have count: "count_occurrences d t = 0"
    using no_occurrence by (rule count_no_occurrence)
  have "card S = 0" if "non_overlapping d t S" for S
  proof -
    from that no_occurrence have "S = {}"
      by (auto simp: non_overlapping_def dest: occurs_at_sublist)
    then show ?thesis by simp
  qed
  moreover have "non_overlapping d t {} \<and> card ({} :: nat set) = 0"
    by (simp add: non_overlapping_def)
  ultimately show ?case unfolding count by (metis le_refl)
next
  case (leftmost pre rest)
  let ?t = "pre @ d @ rest" and ?k = "length pre + length d"
  from d have len: "0 < length d" by simp
  have count: "count_occurrences d ?t = Suc (count_occurrences d rest)"
    using leftmost.hyps by (rule count_leftmost)
  have ex: "\<exists>S. non_overlapping d ?t S \<and> card S = Suc (count_occurrences d rest)"
  proof -
    from leftmost.IH obtain S' where S': "non_overlapping d rest S'"
      "card S' = count_occurrences d rest" by blast
    let ?S = "insert (length pre) ((\<lambda>p. p + ?k) ` S')"
    have "occurs_at d ?t p" if "p \<in> ?S" for p
      using that S'(1) by (auto simp: non_overlapping_def occurs_at_here occurs_at_after)
    moreover have "p + length d \<le> q" if "p \<in> ?S" "q \<in> ?S" "p < q" for p q
      using that S'(1) len by (auto simp: non_overlapping_def)
    ultimately have "non_overlapping d ?t ?S" unfolding non_overlapping_def by blast
    moreover have "card ?S = Suc (card S')"
    proof -
      have "length pre \<notin> (\<lambda>p. p + ?k) ` S'" using len by auto
      moreover have "finite ((\<lambda>p. p + ?k) ` S')"
        using non_overlapping_finite [OF S'(1)] by simp
      moreover have "card ((\<lambda>p. p + ?k) ` S') = card S'"
        by (rule card_image) (simp add: inj_on_def)
      ultimately show ?thesis by simp
    qed
    ultimately show ?thesis using S'(2) by metis
  qed
  have le: "card S \<le> Suc (count_occurrences d rest)" if S: "non_overlapping d ?t S" for S
  proof -
    let ?A = "{p \<in> S. p < ?k}" and ?B = "{p \<in> S. ?k \<le> p}"
    from non_overlapping_finite [OF S] have fin: "finite S" .
    have ge: "length pre \<le> p" if "p \<in> S" for p
    proof (rule ccontr)
      assume "\<not> length pre \<le> p"
      then have "\<not> occurs_at d ?t p"
        using occurs_at_before [OF leftmost.hyps, of p rest] by simp
      with that S show False by (simp add: non_overlapping_def)
    qed
    have "p = q" if "p \<in> ?A" "q \<in> ?A" for p q
    proof (rule ccontr)
      assume "p \<noteq> q"
      then consider "p < q" | "q < p" by arith
      then show False
      proof cases
        case 1
        with that S have "p + length d \<le> q" by (auto simp: non_overlapping_def)
        with that ge [of p] show False by simp
      next
        case 2
        with that S have "q + length d \<le> p" by (auto simp: non_overlapping_def)
        with that ge [of q] show False by simp
      qed
    qed
    with fin have A: "card ?A \<le> Suc 0"
      by (subst card_le_Suc0_iff_eq) auto
    let ?B' = "(\<lambda>p. p - ?k) ` ?B"
    have "occurs_at d rest p" if "p \<in> ?B'" for p
    proof -
      from that obtain p' where p': "p' \<in> S" "?k \<le> p'" "p = p' - ?k" by auto
      with S have "occurs_at d ?t (p + ?k)" by (simp add: non_overlapping_def)
      then show ?thesis by (simp only: occurs_at_after)
    qed
    moreover have "p + length d \<le> q" if "p \<in> ?B'" "q \<in> ?B'" "p < q" for p q
    proof -
      from that obtain p' q' where "p' \<in> S" "q' \<in> S" "?k \<le> p'" "?k \<le> q'"
        "p = p' - ?k" "q = q' - ?k" by auto
      moreover with that(3) have "p' < q'" by arith
      moreover from S calculation have "p' + length d \<le> q'"
        by (simp add: non_overlapping_def)
      ultimately show ?thesis by arith
    qed
    ultimately have "non_overlapping d rest ?B'" unfolding non_overlapping_def by blast
    with leftmost.IH have "card ?B' \<le> count_occurrences d rest" by blast
    moreover have "card ?B' = card ?B"
      by (rule card_image) (auto simp: inj_on_def)
    ultimately have B: "card ?B \<le> count_occurrences d rest" by simp
    have "card (?A \<union> ?B) = card ?A + card ?B"
      using fin by (intro card_Un_disjoint) auto
    moreover have "?A \<union> ?B = S" by auto
    ultimately have "card S = card ?A + card ?B" by simp
    with A B show ?thesis by simp
  qed
  from ex le show ?case unfolding count by blast
qed

text \<open>
  Empty segments. A delimiter at the very beginning gives an empty first segment; a
  delimiter right after a matched one gives an empty segment between them; a delimiter
  appended to a text gives an empty last segment, provided it is matched as a whole,
  that is, no occurrence begins in the last segment and runs into it. More generally,
  splitting undoes joining for every non-empty sequence of segments in which no
  occurrence of the delimiter begins, wherever its empty segments are.
\<close>

lemma not_sublist_butlast:
  assumes "d \<noteq> []"
  shows "\<not> sublist d (butlast d)"
proof
  assume "sublist d (butlast d)"
  then obtain p where "p + length d \<le> length (butlast d)"
    unfolding sublist_iff_take_drop by blast
  then have "p + length d \<le> length d - 1" by (simp only: length_butlast)
  moreover from assms have "0 < length d" by simp
  ultimately show False by arith
qed

lemma split_leading:
  assumes "d \<noteq> []"
  obtains segs where "split_by_delimiter rest d = Some (Inr segs)"
    and "split_by_delimiter (d @ rest) d = Some (Inr ([] # segs))"
proof -
  from not_sublist_butlast [OF assms] have "\<not> sublist d ([] @ butlast d)" by simp
  from split_leftmost [OF this, of rest] that show ?thesis by auto
qed

lemma split_consecutive:
  assumes "\<not> sublist d (pre @ butlast d)"
  obtains segs where "split_by_delimiter rest d = Some (Inr segs)"
    and "split_by_delimiter (pre @ d @ d @ rest) d = Some (Inr (pre # [] # segs))"
proof -
  from assms have d: "d \<noteq> []" by auto
  from split_leading [OF d, of rest] obtain segs where
    segs: "split_by_delimiter rest d = Some (Inr segs)"
      "split_by_delimiter (d @ rest) d = Some (Inr ([] # segs))" by blast
  from split_leftmost [OF assms, of "d @ rest"] segs(2)
  have "split_by_delimiter (pre @ d @ d @ rest) d = Some (Inr (pre # [] # segs))" by auto
  with segs(1) that show ?thesis by blast
qed

lemma split_trailing_aux:
  assumes d: "d \<noteq> []"
  shows "\<exists>segs. split_by_delimiter t d = Some (Inr segs) \<and>
           (segs \<noteq> [] \<and>
            (\<not> sublist d (last segs @ butlast d) \<longrightarrow>
               split_by_delimiter (t @ d) d = Some (Inr (segs @ [[]]))))"
proof (rule split_induct
    [where P = "\<lambda>t segs. segs \<noteq> [] \<and>
        (\<not> sublist d (last segs @ butlast d) \<longrightarrow>
           split_by_delimiter (t @ d) d = Some (Inr (segs @ [[]])))", OF d])
  fix t :: string
  have "split_by_delimiter (t @ d) d = Some (Inr [t, []])"
    if first: "\<not> sublist d (t @ butlast d)"
  proof -
    have "split_by_delimiter [] d = Some (Inr [[]])"
      using d by (simp add: split_no_occurrence)
    with split_leftmost [OF first, of "[]"] show ?thesis by auto
  qed
  then show "[t] \<noteq> [] \<and> (\<not> sublist d (last [t] @ butlast d) \<longrightarrow>
      split_by_delimiter (t @ d) d = Some (Inr ([t] @ [[]])))" by simp
next
  fix pre rest :: string and segs :: "string list"
  assume first: "\<not> sublist d (pre @ butlast d)"
    and IH: "segs \<noteq> [] \<and> (\<not> sublist d (last segs @ butlast d) \<longrightarrow>
        split_by_delimiter (rest @ d) d = Some (Inr (segs @ [[]])))"
  have "split_by_delimiter ((pre @ d @ rest) @ d) d = Some (Inr ((pre # segs) @ [[]]))"
    if "\<not> sublist d (last (pre # segs) @ butlast d)"
  proof -
    from that IH have "split_by_delimiter (rest @ d) d = Some (Inr (segs @ [[]]))" by simp
    with split_leftmost [OF first, of "rest @ d"] show ?thesis by auto
  qed
  then show "pre # segs \<noteq> [] \<and> (\<not> sublist d (last (pre # segs) @ butlast d) \<longrightarrow>
      split_by_delimiter ((pre @ d @ rest) @ d) d = Some (Inr ((pre # segs) @ [[]])))"
    by blast
qed

lemma split_trailing:
  assumes "d \<noteq> []" and "split_by_delimiter t d = Some (Inr segs)"
    and "\<not> sublist d (last segs @ butlast d)"
  shows "split_by_delimiter (t @ d) d = Some (Inr (segs @ [[]]))"
  using split_trailing_aux [OF assms(1), of t] assms(2,3) by auto

lemma split_of_join:
  assumes d: "d \<noteq> []"
  shows "segs \<noteq> [] \<Longrightarrow>
    (\<forall>seg \<in> set (butlast segs). \<not> sublist d (seg @ butlast d)) \<Longrightarrow>
    \<not> sublist d (last segs) \<Longrightarrow>
    split_by_delimiter (join segs d) d = Some (Inr segs)"
proof (induction segs d rule: join.induct)
  case (1 delimiter)
  then show ?case by simp
next
  case (2 seg delimiter)
  then show ?case by (simp add: split_no_occurrence)
next
  case (3 seg seg' segs delimiter)
  from "3.prems" have first: "\<not> sublist delimiter (seg @ butlast delimiter)" by simp
  from "3.prems" "3.IH" have
    "split_by_delimiter (join (seg' # segs) delimiter) delimiter = Some (Inr (seg' # segs))"
    by simp
  with split_leftmost [OF first, of "join (seg' # segs) delimiter"] show ?case by auto
qed

section \<open>The claims of the specification\<close>

text \<open>The equations that evaluate the function on a given text and delimiter.\<close>

lemmas split_evaluation =
  split_by_delimiter_def split_loop.simps string_find.simps substr_def substr_from_def

text \<open>
  \<^bold>\<open>C1\<close> (round-trip law). For every text and every non-empty delimiter,
  \<open>split_by_delimiter\<close> returns a sequence of segments, and joining them with the
  delimiter interposed between consecutive elements gives the text back.
\<close>

theorem split_join_round_trip:
  assumes "delimiter \<noteq> []"
  shows "\<exists>segs. split_by_delimiter text delimiter = Some (Inr segs) \<and>
           join segs delimiter = text"
proof -
  have "\<exists>segs. split_by_delimiter text delimiter = Some (Inr segs) \<and>
          (segs \<noteq> [] \<and> join segs delimiter = text)"
  proof (rule split_induct
      [where P = "\<lambda>t segs. segs \<noteq> [] \<and> join segs delimiter = t", OF assms])
    fix t :: string
    show "[t] \<noteq> [] \<and> join [t] delimiter = t" by simp
  next
    fix pre rest :: string and segs
    assume "segs \<noteq> [] \<and> join segs delimiter = rest"
    then show "pre # segs \<noteq> [] \<and> join (pre # segs) delimiter = pre @ delimiter @ rest"
      by (simp add: join_Cons)
  qed
  then show ?thesis by blast
qed

theorem split_join_round_trip_witness:
  "''::'' \<noteq> [] \<and>
   split_by_delimiter ''a::b::c'' ''::'' = Some (Inr [''a'', ''b'', ''c'']) \<and>
   join [''a'', ''b'', ''c''] ''::'' = ''a::b::c''"
proof -
  have "split_by_delimiter ''a::b::c'' ''::'' = Some (Inr [''a'', ''b'', ''c''])"
    by (simp add: split_evaluation)
  with split_join_round_trip [of "''::''" "''a::b::c''"] show ?thesis by simp
qed

text \<open>
  \<^bold>\<open>C2\<close> (segment count law). For every text and every non-empty delimiter, the number
  of segments returned is one plus the number of non-overlapping occurrences of the
  delimiter in the text (\<open>count_occurrences\<close>, which by \<open>count_occurrences_greatest\<close> is
  also the greatest number of occurrences that do not overlap one another).
\<close>

theorem split_segment_count:
  assumes "delimiter \<noteq> []"
  shows "\<exists>segs. split_by_delimiter text delimiter = Some (Inr segs) \<and>
           length segs = 1 + count_occurrences delimiter text"
proof (rule split_induct
    [where P = "\<lambda>t segs. length segs = 1 + count_occurrences delimiter t", OF assms])
  fix t :: string
  assume "\<not> sublist delimiter t"
  then show "length [t] = 1 + count_occurrences delimiter t"
    by (simp add: count_no_occurrence)
next
  fix pre rest :: string and segs :: "string list"
  assume "\<not> sublist delimiter (pre @ butlast delimiter)"
    and "length segs = 1 + count_occurrences delimiter rest"
  then show "length (pre # segs) = 1 + count_occurrences delimiter (pre @ delimiter @ rest)"
    by (simp add: count_leftmost)
qed

theorem split_segment_count_witness:
  "''aa'' \<noteq> [] \<and>
   split_by_delimiter ''aaaaa'' ''aa'' = Some (Inr ['''', '''', ''a'']) \<and>
   length ['''', '''', ''a''] = 1 + count_occurrences ''aa'' ''aaaaa'' \<and>
   count_occurrences ''aa'' ''aaaaa'' = 2"
proof -
  have "split_by_delimiter ''aaaaa'' ''aa'' = Some (Inr ['''', '''', ''a''])"
    by (simp add: split_evaluation)
  with split_segment_count [of "''aa''" "''aaaaa''"] show ?thesis by simp
qed

text \<open>
  \<^bold>\<open>C3\<close> (termination). For every text and every non-empty delimiter the function
  returns. The loop body appends one segment each time it runs and one more segment is
  appended after the loop, so the loop body runs \<open>length segs - 1\<close> times; that number
  times the length of the delimiter is at most the length of the text. The reason is
  the second part: every match that \<^verbatim>\<open>find\<close> reports from \<open>start\<close> ends strictly after
  \<open>start\<close> and within the text, so the next search position is larger.
\<close>

theorem split_terminates:
  assumes "delimiter \<noteq> []"
  shows "(\<exists>segs. split_by_delimiter text delimiter = Some (Inr segs) \<and>
            (length segs - 1) * length delimiter \<le> length text) \<and>
         (\<forall>start end'. string_find text delimiter start = Some end' \<longrightarrow>
            start < end' + length delimiter \<and> end' + length delimiter \<le> length text)"
proof
  show "\<exists>segs. split_by_delimiter text delimiter = Some (Inr segs) \<and>
          (length segs - 1) * length delimiter \<le> length text"
  proof (rule split_induct
      [where P = "\<lambda>t segs. (length segs - 1) * length delimiter \<le> length t", OF assms])
    fix t :: string
    show "(length [t] - 1) * length delimiter \<le> length t" by simp
  next
    fix pre rest :: string and segs :: "string list"
    assume "(length segs - 1) * length delimiter \<le> length rest"
    then show "(length (pre # segs) - 1) * length delimiter \<le> length (pre @ delimiter @ rest)"
      by (cases segs) simp_all
  qed
next
  show "\<forall>start end'. string_find text delimiter start = Some end' \<longrightarrow>
          start < end' + length delimiter \<and> end' + length delimiter \<le> length text"
  proof (intro allI impI)
    fix start end'
    assume "string_find text delimiter start = Some end'"
    from string_find_Some [OF this] have "start \<le> end'" "end' + length delimiter \<le> length text"
      by simp_all
    moreover from assms have "0 < length delimiter" by simp
    ultimately show "start < end' + length delimiter \<and> end' + length delimiter \<le> length text"
      by arith
  qed
qed

theorem split_terminates_witness:
  "'','' \<noteq> [] \<and>
   split_by_delimiter ''a,b'' '','' = Some (Inr [''a'', ''b'']) \<and>
   (length [''a'', ''b''] - 1) * length '','' \<le> length ''a,b'' \<and>
   string_find ''a,b'' '','' 0 = Some 1 \<and>
   (0::nat) < 1 + length '','' \<and> 1 + length '','' \<le> length ''a,b''"
proof -
  have "split_by_delimiter ''a,b'' '','' = Some (Inr [''a'', ''b''])"
    and "string_find ''a,b'' '','' 0 = Some 1"
    by (simp_all add: split_evaluation)
  with split_terminates [of "'',''" "''a,b''"] show ?thesis by simp
qed

text \<open>
  \<^bold>\<open>C4\<close> (empty delimiter). The claim is that with an empty delimiter the function fails
  with \<open>InvalidArgument\<close>, or splits the text into its characters, or returns the whole
  text as one segment. The source has no guard for the empty delimiter, and the
  function does none of the three: for every text, \<open>split_by_delimiter text []\<close> has no
  result at all, neither a sequence nor an exception. (The C++ loop appends empty
  strings to the vector without end.)
\<close>

theorem split_empty_delimiter_never_returns:
  "split_by_delimiter text [] = None"
  unfolding split_by_delimiter_def by (rule split_loop_empty_delimiter)

text \<open>
  \<^bold>\<open>C5\<close> (no-delimiter case). For every text and every non-empty delimiter that does not
  occur in the text, the result is the one-element sequence holding the text.
\<close>

theorem split_without_delimiter:
  assumes "delimiter \<noteq> []" and "\<not> sublist delimiter text"
  shows "split_by_delimiter text delimiter = Some (Inr [text])"
  using assms(2) by (rule split_no_occurrence)

theorem split_without_delimiter_witness:
  "'','' \<noteq> [] \<and> \<not> sublist '','' ''a;b'' \<and>
   split_by_delimiter ''a;b'' '','' = Some (Inr [''a;b''])"
  using split_without_delimiter [of "'',''" "''a;b''"] by (simp add: sublist_code)

text \<open>
  \<^bold>\<open>C6\<close> (non-empty output, empty text). For every text and every non-empty delimiter
  the returned sequence has at least one element, and splitting the empty text by
  \<open>'',''\<close> returns the one-element sequence holding the empty string.
\<close>

theorem split_at_least_one_segment:
  "(\<forall>text delimiter. delimiter \<noteq> [] \<longrightarrow>
      (\<exists>segs. split_by_delimiter text delimiter = Some (Inr segs) \<and> 1 \<le> length segs)) \<and>
   split_by_delimiter '''' '','' = Some (Inr [''''])"
proof
  show "\<forall>text delimiter. delimiter \<noteq> [] \<longrightarrow>
      (\<exists>segs. split_by_delimiter text delimiter = Some (Inr segs) \<and> 1 \<le> length segs)"
  proof (intro allI impI)
    fix t delimiter :: string
    assume d: "delimiter \<noteq> []"
    show "\<exists>segs. split_by_delimiter t delimiter = Some (Inr segs) \<and> 1 \<le> length segs"
      by (rule split_induct [where P = "\<lambda>t segs. 1 \<le> length segs", OF d]) simp_all
  qed
next
  show "split_by_delimiter '''' '','' = Some (Inr [''''])"
    by (simp add: split_no_occurrence)
qed

theorem split_at_least_one_segment_witness:
  "''ab'' \<noteq> [] \<and>
   split_by_delimiter ''ababab'' ''ab'' = Some (Inr ['''', '''', '''', '''']) \<and>
   1 \<le> length ['''', '''', '''', ''''::string]"
proof -
  have "split_by_delimiter ''ababab'' ''ab'' = Some (Inr ['''', '''', '''', ''''])"
    by (simp add: split_evaluation)
  with split_at_least_one_segment [THEN conjunct1, rule_format, of "''ab''" "''ababab''"]
  show ?thesis by simp
qed

text \<open>
  \<^bold>\<open>C7\<close> (empty segments are kept at every position). For every non-empty delimiter:
  \<^item> leading: the segments of \<open>delimiter @ rest\<close> are an empty segment followed by the
    segments of \<open>rest\<close>;
  \<^item> consecutive: where the occurrence after \<open>pre\<close> is the leftmost one, the segments of
    \<open>pre @ delimiter @ delimiter @ rest\<close> are \<open>pre\<close>, an empty segment, and the
    segments of \<open>rest\<close>;
  \<^item> trailing: the segments of \<open>text @ delimiter\<close> are those of \<open>text\<close> followed by an
    empty segment, when the appended delimiter is the one matched (no occurrence begins
    inside the last segment of \<open>text\<close> and overlaps it);
  \<^item> every position: any non-empty sequence of segments, empty ones included wherever
    they are, is returned unchanged by splitting its join, when no occurrence of the
    delimiter begins inside a segment.

  In particular splitting \<open>''a,,b''\<close> by \<open>'',''\<close> returns \<open>[''a'', [], ''b'']\<close> and
  splitting \<open>'',a,''\<close> by \<open>'',''\<close> returns \<open>[[], ''a'', []]\<close>.
\<close>

theorem split_keeps_empty_segments:
  "(\<forall>delimiter rest. delimiter \<noteq> [] \<longrightarrow>
      (\<exists>segs. split_by_delimiter rest delimiter = Some (Inr segs) \<and>
         split_by_delimiter (delimiter @ rest) delimiter = Some (Inr ([] # segs)))) \<and>
   (\<forall>pre delimiter rest. delimiter \<noteq> [] \<longrightarrow>
      \<not> sublist delimiter (pre @ butlast delimiter) \<longrightarrow>
      (\<exists>segs. split_by_delimiter rest delimiter = Some (Inr segs) \<and>
         split_by_delimiter (pre @ delimiter @ delimiter @ rest) delimiter =
           Some (Inr (pre # [] # segs)))) \<and>
   (\<forall>text delimiter segs. delimiter \<noteq> [] \<longrightarrow>
      split_by_delimiter text delimiter = Some (Inr segs) \<longrightarrow>
      \<not> sublist delimiter (last segs @ butlast delimiter) \<longrightarrow>
      split_by_delimiter (text @ delimiter) delimiter = Some (Inr (segs @ [[]]))) \<and>
   (\<forall>delimiter segs. delimiter \<noteq> [] \<longrightarrow> segs \<noteq> [] \<longrightarrow>
      (\<forall>seg \<in> set (butlast segs). \<not> sublist delimiter (seg @ butlast delimiter)) \<longrightarrow>
      \<not> sublist delimiter (last segs) \<longrightarrow>
      split_by_delimiter (join segs delimiter) delimiter = Some (Inr segs)) \<and>
   split_by_delimiter ''a,,b'' '','' = Some (Inr [''a'', '''', ''b'']) \<and>
   split_by_delimiter '',a,'' '','' = Some (Inr ['''', ''a'', ''''])"
proof (intro conjI allI impI)
  fix delimiter rest :: string
  assume "delimiter \<noteq> []"
  from split_leading [OF this, of rest]
  show "\<exists>segs. split_by_delimiter rest delimiter = Some (Inr segs) \<and>
      split_by_delimiter (delimiter @ rest) delimiter = Some (Inr ([] # segs))"
    by blast
next
  fix pre delimiter rest :: string
  assume "\<not> sublist delimiter (pre @ butlast delimiter)"
  from split_consecutive [OF this, of rest]
  show "\<exists>segs. split_by_delimiter rest delimiter = Some (Inr segs) \<and>
      split_by_delimiter (pre @ delimiter @ delimiter @ rest) delimiter =
        Some (Inr (pre # [] # segs))"
    by blast
next
  fix t delimiter :: string and segs
  assume "delimiter \<noteq> []" and "split_by_delimiter t delimiter = Some (Inr segs)"
    and "\<not> sublist delimiter (last segs @ butlast delimiter)"
  then show "split_by_delimiter (t @ delimiter) delimiter = Some (Inr (segs @ [[]]))"
    by (rule split_trailing)
next
  fix delimiter :: string and segs
  assume "delimiter \<noteq> []" and "segs \<noteq> []"
    and "\<forall>seg \<in> set (butlast segs). \<not> sublist delimiter (seg @ butlast delimiter)"
    and "\<not> sublist delimiter (last segs)"
  then show "split_by_delimiter (join segs delimiter) delimiter = Some (Inr segs)"
    by (rule split_of_join)
next
  show "split_by_delimiter ''a,,b'' '','' = Some (Inr [''a'', '''', ''b''])"
    by (simp add: split_evaluation)
next
  show "split_by_delimiter '',a,'' '','' = Some (Inr ['''', ''a'', ''''])"
    by (simp add: split_evaluation)
qed

theorem split_keeps_empty_segments_witness:
  "'';'' \<noteq> [] \<and>
   split_by_delimiter ''a'' '';'' = Some (Inr [''a'']) \<and>
   split_by_delimiter ('';'' @ ''a'') '';'' = Some (Inr ['''', ''a'']) \<and>
   \<not> sublist '';'' (''a'' @ butlast '';'') \<and>
   split_by_delimiter ''b'' '';'' = Some (Inr [''b'']) \<and>
   split_by_delimiter (''a'' @ '';'' @ '';'' @ ''b'') '';'' = Some (Inr [''a'', '''', ''b'']) \<and>
   split_by_delimiter ''a;b'' '';'' = Some (Inr [''a'', ''b'']) \<and>
   \<not> sublist '';'' (last [''a'', ''b''] @ butlast '';'') \<and>
   split_by_delimiter (''a;b'' @ '';'') '';'' = Some (Inr ([''a'', ''b''] @ [''''])) \<and>
   ['''', '''', ''x'', ''''] \<noteq> [] \<and>
   \<not> sublist '';'' ('''' @ butlast '';'') \<and> \<not> sublist '';'' (''x'' @ butlast '';'') \<and>
   \<not> sublist '';'' (last ['''', '''', ''x'', '''']) \<and>
   split_by_delimiter (join ['''', '''', ''x'', ''''] '';'') '';'' =
     Some (Inr ['''', '''', ''x'', ''''])"
proof -
  note general = split_keeps_empty_segments
  have d: "'';'' \<noteq> []" by simp
  have a: "split_by_delimiter ''a'' '';'' = Some (Inr [''a''])"
    and b: "split_by_delimiter ''b'' '';'' = Some (Inr [''b''])"
    and ab: "split_by_delimiter ''a;b'' '';'' = Some (Inr [''a'', ''b''])"
    by (simp_all add: split_evaluation)
  have first: "\<not> sublist '';'' (''a'' @ butlast '';'')"
    and last: "\<not> sublist '';'' (last [''a'', ''b''] @ butlast '';'')"
    and segs: "['''', '''', ''x'', ''''] \<noteq> []"
      "\<not> sublist '';'' ('''' @ butlast '';'')" "\<not> sublist '';'' (''x'' @ butlast '';'')"
      "\<not> sublist '';'' (last ['''', '''', ''x'', ''''])"
    by (simp_all add: sublist_code)
  from general [THEN conjunct1, rule_format, OF d, of "''a''"]
  have leading: "split_by_delimiter ('';'' @ ''a'') '';'' = Some (Inr ['''', ''a''])"
    unfolding a by simp
  from general [THEN conjunct2, THEN conjunct1, rule_format, OF d first, of "''b''"]
  have consecutive:
    "split_by_delimiter (''a'' @ '';'' @ '';'' @ ''b'') '';'' = Some (Inr [''a'', '''', ''b''])"
    unfolding b by simp
  from general [THEN conjunct2, THEN conjunct2, THEN conjunct1, rule_format, OF d ab last]
  have trailing:
    "split_by_delimiter (''a;b'' @ '';'') '';'' = Some (Inr ([''a'', ''b''] @ ['''']))" .
  from general [THEN conjunct2, THEN conjunct2, THEN conjunct2, THEN conjunct1,
      THEN spec [where x = "'';''"], THEN spec [where x = "['''', '''', ''x'', '''']"]] segs
  have everywhere: "split_by_delimiter (join ['''', '''', ''x'', ''''] '';'') '';'' =
      Some (Inr ['''', '''', ''x'', ''''])"
    by (simp add: sublist_code)
  from d a leading first b consecutive ab last trailing segs everywhere
  show ?thesis by (intro conjI)
qed

text \<open>
  \<^bold>\<open>C8\<close> (literal, left-to-right, non-overlapping matching). Let a text be
  \<open>pre @ delimiter @ rest\<close> where this occurrence of the non-empty delimiter is the
  leftmost one (the delimiter does not occur in \<open>pre @ butlast delimiter\<close>). Then the
  first segment is \<open>pre\<close> and the remaining segments are those of \<open>rest\<close> alone: the
  occurrence is consumed whole and the search goes on right after it, whatever
  the characters before \<open>rest\<close> were. In particular \<open>''a::b::c''\<close> split by \<open>''::''\<close> is
  \<open>[''a'', ''b'', ''c'']\<close>, and \<open>''aaa''\<close> split by \<open>''aa''\<close> is \<open>[[], ''a'']\<close>: one
  occurrence is split on, the overlapping one at position 1 is not.
\<close>

theorem split_leftmost_nonoverlapping:
  "(\<forall>pre delimiter rest. delimiter \<noteq> [] \<longrightarrow>
      \<not> sublist delimiter (pre @ butlast delimiter) \<longrightarrow>
      (\<exists>segs. split_by_delimiter rest delimiter = Some (Inr segs) \<and>
         split_by_delimiter (pre @ delimiter @ rest) delimiter = Some (Inr (pre # segs)))) \<and>
   split_by_delimiter ''a::b::c'' ''::'' = Some (Inr [''a'', ''b'', ''c'']) \<and>
   split_by_delimiter ''aaa'' ''aa'' = Some (Inr ['''', ''a''])"
proof (intro conjI allI impI)
  fix pre delimiter rest :: string
  assume "\<not> sublist delimiter (pre @ butlast delimiter)"
  from split_leftmost [OF this, of rest]
  show "\<exists>segs. split_by_delimiter rest delimiter = Some (Inr segs) \<and>
         split_by_delimiter (pre @ delimiter @ rest) delimiter = Some (Inr (pre # segs))"
    by blast
next
  show "split_by_delimiter ''a::b::c'' ''::'' = Some (Inr [''a'', ''b'', ''c''])"
    by (simp add: split_evaluation)
next
  show "split_by_delimiter ''aaa'' ''aa'' = Some (Inr ['''', ''a''])"
    by (simp add: split_evaluation)
qed

theorem split_leftmost_nonoverlapping_witness:
  "''aa'' \<noteq> [] \<and> \<not> sublist ''aa'' (''b'' @ butlast ''aa'') \<and>
   split_by_delimiter ''aa'' ''aa'' = Some (Inr [[], []]) \<and>
   split_by_delimiter (''b'' @ ''aa'' @ ''aa'') ''aa'' = Some (Inr [''b'', [], []])"
proof -
  have d: "''aa'' \<noteq> []" and first: "\<not> sublist ''aa'' (''b'' @ butlast ''aa'')"
    by (simp_all add: sublist_code)
  have rest: "split_by_delimiter ''aa'' ''aa'' = Some (Inr [[], []])"
    by (simp add: split_evaluation)
  from split_leftmost_nonoverlapping [THEN conjunct1, rule_format, OF d first, of "''aa''"]
  have "split_by_delimiter (''b'' @ ''aa'' @ ''aa'') ''aa'' = Some (Inr [''b'', [], []])"
    unfolding rest by simp
  with d first rest show ?thesis by blast
qed

text \<open>
  \<^bold>\<open>C10\<close> (no segment contains the delimiter). For every text and every non-empty
  delimiter, the delimiter does not occur in any of the segments returned.
\<close>

theorem split_segments_without_delimiter:
  assumes "delimiter \<noteq> []"
  shows "\<exists>segs. split_by_delimiter text delimiter = Some (Inr segs) \<and>
           (\<forall>seg \<in> set segs. \<not> sublist delimiter seg)"
proof (rule split_induct
    [where P = "\<lambda>t segs. \<forall>seg \<in> set segs. \<not> sublist delimiter seg", OF assms])
  fix t :: string
  assume "\<not> sublist delimiter t"
  then show "\<forall>seg \<in> set [t]. \<not> sublist delimiter seg" by simp
next
  fix pre rest :: string and segs :: "string list"
  assume "\<not> sublist delimiter (pre @ butlast delimiter)"
    and "\<forall>seg \<in> set segs. \<not> sublist delimiter seg"
  moreover have "sublist delimiter pre \<Longrightarrow> sublist delimiter (pre @ butlast delimiter)"
    by (simp add: sublist_append)
  ultimately show "\<forall>seg \<in> set (pre # segs). \<not> sublist delimiter seg" by auto
qed

theorem split_segments_without_delimiter_witness:
  "''aa'' \<noteq> [] \<and>
   split_by_delimiter ''aaabaaaa'' ''aa'' = Some (Inr ['''', ''ab'', '''', '''']) \<and>
   \<not> sublist ''aa'' '''' \<and> \<not> sublist ''aa'' ''ab''"
proof -
  have "split_by_delimiter ''aaabaaaa'' ''aa'' = Some (Inr ['''', ''ab'', '''', ''''])"
    by (simp add: split_evaluation)
  with split_segments_without_delimiter [of "''aa''" "''aaabaaaa''"] show ?thesis by simp
qed

text \<open>
  \<^bold>\<open>C9\<close> (purity and determinism) has no theorem. That the C++ function performs no
  input or output and writes to nothing but its local variables is read off the source
  when it is translated; \<open>split_by_delimiter\<close> above is a HOL function of the text and
  the delimiter, and equal arguments give equal results for every HOL function, whatever
  its definition.
\<close>

end
